theory Spec2Isabelle
  imports Complex_Main "HOL-Library.AList" "HOL-Library.Multiset"
begin

unbundle bit_operations_syntax

section \<open>Python values and primitives used by the notebooks\<close>

text \<open>
  The notebooks are Python scripts. A raised exception is a value \<open>Inl e\<close>; a cell that
  completes returns \<open>Inr v\<close>. \<open>DeviceError\<close> stands for any exception of a device run.
\<close>

datatype py_error = ValueError | IndexError | ZeroDivisionError | DeviceError

text \<open>
  \<^verbatim>\<open>int(x)\<close> on a \<^verbatim>\<open>str\<close>, base 10: surrounding whitespace is stripped, one sign is
  allowed, then decimal digits with single underscores between digits; anything else
  raises ValueError. Leading zeros are accepted. Characters are the code points below 256;
  the whitespace \<^verbatim>\<open>int\<close> strips is tab, line feed, vertical tab, form feed, carriage
  return and space, and the two spaces beyond ASCII (133 and 160). The separators 28 to
  31 are not stripped.
\<close>

definition py_isspace :: "char \<Rightarrow> bool" where
  "py_isspace c = (of_char c \<in> {9, 10, 11, 12, 13, 32, 133, 160 :: nat})"

definition is_digit :: "char \<Rightarrow> bool" where
  "is_digit c = (48 \<le> (of_char c :: nat) \<and> (of_char c :: nat) \<le> 57)"

definition digit_val :: "char \<Rightarrow> int" where
  "digit_val c = int (of_char c) - 48"

definition py_strip :: "string \<Rightarrow> string" where
  "py_strip s = rev (dropWhile py_isspace (rev (dropWhile py_isspace s)))"

fun digits_ok :: "string \<Rightarrow> bool" where
  "digits_ok [] = False"
| "digits_ok [c] = is_digit c"
| "digits_ok (c # d # cs) =
     (is_digit c \<and> (if d = CHR ''_'' then digits_ok cs else digits_ok (d # cs)))"

definition dec_value :: "string \<Rightarrow> int" where
  "dec_value s = foldl (\<lambda>acc c. 10 * acc + digit_val c) 0 (filter (\<lambda>c. c \<noteq> CHR ''_'') s)"

definition py_int :: "string \<Rightarrow> py_error + int" where
  "py_int s =
     (let t = py_strip s;
          (neg, u) = (case t of
                        [] \<Rightarrow> (False, t)
                      | c # r \<Rightarrow> if c = CHR ''-'' then (True, r)
                                 else if c = CHR ''+'' then (False, r)
                                 else (False, t))
      in if digits_ok u then Inr (if neg then - dec_value u else dec_value u)
         else Inl ValueError)"

text \<open>\<^verbatim>\<open>s[i]\<close> on a string or list with a non-negative index: IndexError out of range.\<close>

definition py_index :: "'a list \<Rightarrow> nat \<Rightarrow> py_error + 'a" where
  "py_index xs i = (if i < length xs then Inr (xs ! i) else Inl IndexError)"

section \<open>Circuit construction (Simon notebooks, cell "Circuit Definition")\<close>

text \<open>
  A circuit is the list of its instructions in the order they were appended.
  \<^verbatim>\<open>circ.h(range(n))\<close> appends one Hadamard per listed qubit, \<^verbatim>\<open>circ.cnot(c, t)\<close> one
  controlled-NOT. The identity and Pauli-X gates occur in the introductory notebook only.
\<close>

datatype gate = I_gate nat | X_gate nat | H_gate nat | CNot nat nat

type_synonym circuit = "gate list"

definition h_range :: "nat \<Rightarrow> circuit \<Rightarrow> circuit" where
  "h_range n circ = circ @ map H_gate [0..<n]"

text \<open>
  \<^verbatim>\<open>for j in range(n): circ.cnot(i, n + j)\<close>
\<close>

definition cnot_row :: "nat \<Rightarrow> nat \<Rightarrow> circuit \<Rightarrow> circuit" where
  "cnot_row n i circ = fold (\<lambda>j c. c @ [CNot i (n + j)]) [0..<n] circ"

text \<open>
  \<^verbatim>\<open>for i in range(n): if int(s[i]) == 1: <inner loop>\<close>; the list argument holds the
  values of \<open>i\<close> still to run.
\<close>

fun oracle_loop :: "string \<Rightarrow> nat \<Rightarrow> nat list \<Rightarrow> circuit \<Rightarrow> py_error + circuit" where
  "oracle_loop s n [] circ = Inr circ"
| "oracle_loop s n (i # is) circ =
     (case py_index s i of
        Inl e \<Rightarrow> Inl e
      | Inr c \<Rightarrow>
          (case py_int [c] of
             Inl e \<Rightarrow> Inl e
           | Inr v \<Rightarrow> oracle_loop s n is (if v = 1 then cnot_row n i circ else circ)))"

definition simon_circuit :: "string \<Rightarrow> py_error + circuit" where
  "simon_circuit s =
     (let n = length s in
      case oracle_loop s n [0..<n] (h_range n []) of
        Inl e \<Rightarrow> Inl e
      | Inr circ \<Rightarrow> Inr (h_range n circ))"

fun is_cnot :: "gate \<Rightarrow> bool" where
  "is_cnot (CNot c t) = True"
| "is_cnot g = False"

definition is_bitstring :: "string \<Rightarrow> bool" where
  "is_bitstring s = list_all (\<lambda>c. c = CHR ''0'' \<or> c = CHR ''1'') s"

text \<open>
  The oracle as the specification lists it: for each \<open>i\<close> with \<open>s[i] = '1'\<close>, in
  increasing order, the controlled-NOTs from \<open>i\<close> onto \<open>n + j\<close> for \<open>j = 0, ..., n - 1\<close>.
\<close>

definition oracle_spec :: "string \<Rightarrow> circuit" where
  "oracle_spec s =
     [CNot i (length s + j). i \<leftarrow> [0..<length s], s ! i = CHR ''1'', j \<leftarrow> [0..<length s]]"


section \<open>The function the oracle computes\<close>

text \<open>
  On a computational basis state (one bit per qubit, qubit \<open>i\<close> at position \<open>i\<close>) a
  controlled-NOT flips the target when the control is set, Pauli-X flips its qubit and the
  identity does nothing. A Hadamard has no classical action, and a qubit outside the
  register is an error: both give \<open>None\<close>.
\<close>

fun classical_step :: "gate \<Rightarrow> bool list \<Rightarrow> bool list option" where
  "classical_step (CNot c t) b =
     (if c < length b \<and> t < length b then Some (b[t := (b ! t \<noteq> b ! c)]) else None)"
| "classical_step (X_gate q) b = (if q < length b then Some (b[q := \<not> b ! q]) else None)"
| "classical_step (I_gate q) b = (if q < length b then Some b else None)"
| "classical_step (H_gate q) b = None"

fun classical_run :: "circuit \<Rightarrow> bool list \<Rightarrow> bool list option" where
  "classical_run [] b = Some b"
| "classical_run (g # gs) b =
     (case classical_step g b of None \<Rightarrow> None | Some b' \<Rightarrow> classical_run gs b')"

text \<open>
  The oracle is what the loop appends to an empty circuit. It acts on the input register
  \<open>x\<close> (qubits \<open>0..n-1\<close>) and the second register (qubits \<open>n..2n-1\<close>), which starts at zero;
  \<open>f x\<close> is the second register afterwards.
\<close>

definition oracle_f :: "string \<Rightarrow> bool list \<Rightarrow> bool list option" where
  "oracle_f s x =
     (let n = length s in
      case oracle_loop s n [0..<n] [] of
        Inl e \<Rightarrow> None
      | Inr g \<Rightarrow> map_option (drop n) (classical_run g (x @ replicate n False)))"

definition bits_of :: "string \<Rightarrow> bool list" where
  "bits_of s = map (\<lambda>c. c = CHR ''1'') s"

definition xor_bits :: "bool list \<Rightarrow> bool list \<Rightarrow> bool list" where
  "xor_bits x y = map2 (\<lambda>a b. a \<noteq> b) x y"

definition all_inputs :: "nat \<Rightarrow> bool list list" where
  "all_inputs n = List.n_lists n [False, True]"

definition preimages :: "string \<Rightarrow> bool list \<Rightarrow> bool list list" where
  "preimages s x = filter (\<lambda>x'. oracle_f s x' = oracle_f s x) (all_inputs (length s))"

section \<open>Tally of the measured input registers (cell "Analyze the results")\<close>

text \<open>
  \<^verbatim>\<open>result.measurement_counts\<close> is a \<^verbatim>\<open>Counter\<close> and \<^verbatim>\<open>answer_plot\<close> a \<^verbatim>\<open>dict\<close>: both keep
  their keys in insertion order, so both are association lists with distinct keys.
  Reading a key a Counter does not hold gives 0. Assigning to a key of a dict replaces
  the value in place, or appends the key when it is new: \<^const>\<open>AList.update\<close>.
\<close>

type_synonym counts = "(string \<times> int) list"

definition counter_get :: "counts \<Rightarrow> string \<Rightarrow> int" where
  "counter_get mc k = (case map_of mc k of None \<Rightarrow> 0 | Some v \<Rightarrow> v)"

text \<open>
  \<^verbatim>\<open>for measresult in result.measurement_counts.keys(): ...\<close>; the third argument holds
  the keys still to visit, the fourth is \<^verbatim>\<open>answer_plot\<close>.
\<close>

fun tally_loop :: "nat \<Rightarrow> counts \<Rightarrow> string list \<Rightarrow> counts \<Rightarrow> counts" where
  "tally_loop n mc [] answer_plot = answer_plot"
| "tally_loop n mc (measresult # ks) answer_plot =
     (let measresult_input = take n measresult in
      case map_of answer_plot measresult_input of
        Some old \<Rightarrow>
          tally_loop n mc ks
            (AList.update measresult_input (old + counter_get mc measresult) answer_plot)
      | None \<Rightarrow>
          tally_loop n mc ks
            (AList.update measresult_input (counter_get mc measresult) answer_plot))"

definition tally :: "nat \<Rightarrow> counts \<Rightarrow> counts" where
  "tally n mc = tally_loop n mc (map fst mc) []"

section \<open>Recovery of the hidden string (cell "Using these results")\<close>

text \<open>\<^verbatim>\<open>y1, y2 = it\<close>: unpacking raises ValueError unless there are exactly two items.\<close>

fun unpack2 :: "'a list \<Rightarrow> py_error + ('a \<times> 'a)" where
  "unpack2 [a, b] = Inr (a, b)"
| "unpack2 xs = Inl ValueError"

text \<open>\<^verbatim>\<open>y1,y2 = answer_plot.keys(); s_calc = int(y1)^int(y2)\<close>\<close>

definition s_calc :: "counts \<Rightarrow> py_error + int" where
  "s_calc answer_plot =
     (case unpack2 (map fst answer_plot) of
        Inl e \<Rightarrow> Inl e
      | Inr (y1, y2) \<Rightarrow>
          (case py_int y1 of
             Inl e \<Rightarrow> Inl e
           | Inr a \<Rightarrow> (case py_int y2 of Inl e \<Rightarrow> Inl e | Inr b \<Rightarrow> Inr (a XOR b))))"

text \<open>The bitwise XOR of two bit strings, position by position.\<close>

definition xor_str :: "string \<Rightarrow> string \<Rightarrow> string" where
  "xor_str y1 y2 = map2 (\<lambda>a b. if a = b then CHR ''0'' else CHR ''1'') y1 y2"

section \<open>Post-processing (last cell of the notebook with the QPU run)\<close>

text \<open>
  \<^verbatim>\<open>lAnswer = [(k,v) for k,v in answer_plot.items() if k != "0"*n]\<close>, then
  \<^verbatim>\<open>lAnswer.sort(key = lambda x: x[1], reverse=True)\<close>: a stable sort, descending in the
  count, items with equal counts keeping their order.
\<close>

definition lAnswer :: "nat \<Rightarrow> counts \<Rightarrow> counts" where
  "lAnswer n answer_plot =
     sort_key (\<lambda>x. - snd x) (filter (\<lambda>(k, v). k \<noteq> replicate n (CHR ''0'')) answer_plot)"

text \<open>\<^verbatim>\<open>[int(c) for c in k]\<close>\<close>

fun int_chars :: "string \<Rightarrow> py_error + int list" where
  "int_chars [] = Inr []"
| "int_chars (c # cs) =
     (case py_int [c] of
        Inl e \<Rightarrow> Inl e
      | Inr v \<Rightarrow> (case int_chars cs of Inl e \<Rightarrow> Inl e | Inr vs \<Rightarrow> Inr (v # vs)))"

text \<open>\<^verbatim>\<open>Y = []; for k, v in lAnswer: Y.append([int(c) for c in k])\<close>\<close>

fun Y_loop :: "counts \<Rightarrow> int list list \<Rightarrow> py_error + int list list" where
  "Y_loop [] Y = Inr Y"
| "Y_loop ((k, v) # rest) Y =
     (case int_chars k of Inl e \<Rightarrow> Inl e | Inr row \<Rightarrow> Y_loop rest (Y @ [row]))"

text \<open>
  \<^verbatim>\<open>Matrix(Y)\<close> of nested lists: the rows must have one length, else ValueError. Entries
  are exact rationals.
\<close>

type_synonym matrix = "rat list list"

definition Matrix :: "int list list \<Rightarrow> py_error + matrix" where
  "Matrix rows =
     (if \<forall>r \<in> set rows. length r = length (hd rows)
      then Inr (map (map of_int) rows) else Inl ValueError)"

text \<open>
  The library's \<^verbatim>\<open>mod_inverse(a, m)\<close>: the \<open>c\<close> with the sign of \<open>m\<close> and
  \<open>a * c = 1 (mod m)\<close>; ValueError when there is none, and for \<open>m\<close> equal to 1 or -1.
  For \<open>m = 0\<close> it raises ZeroDivisionError when \<open>a\<close> is 1 or -1 and ValueError otherwise.
\<close>

definition mod_inverse :: "int \<Rightarrow> int \<Rightarrow> py_error + int" where
  "mod_inverse a m =
     (if m = 0 then (if a = 1 \<or> a = - 1 then Inl ZeroDivisionError else Inl ValueError)
      else if m = 1 \<or> m = - 1 then Inl ValueError
      else case find (\<lambda>c. (a * c) mod m = 1 mod m) (if 0 < m then [0..m - 1] else rev [m + 1..0]) of
             None \<Rightarrow> Inl ValueError
           | Some c \<Rightarrow> Inr c)"

text \<open>
  \<^verbatim>\<open>def mod(x,modulus): numer, denom = x.as_numer_denom();
  return numer*mod_inverse(denom,modulus) % modulus\<close>.
  For a rational, \<^verbatim>\<open>as_numer_denom\<close> is the fraction in lowest terms with a positive
  denominator: \<^const>\<open>quotient_of\<close>.
\<close>

definition mod_py :: "rat \<Rightarrow> int \<Rightarrow> py_error + int" where
  "mod_py x modulus =
     (case quotient_of x of
        (numer, denom) \<Rightarrow>
          (case mod_inverse denom modulus of
             Inl e \<Rightarrow> Inl e
           | Inr c \<Rightarrow> if modulus = 0 then Inl ZeroDivisionError
                      else Inr (numer * c mod modulus)))"

text \<open>\<^verbatim>\<open>M.applyfunc(f)\<close>: \<open>f\<close> on every entry; the first exception ends it.\<close>

fun applyfunc_row :: "('a \<Rightarrow> py_error + 'b) \<Rightarrow> 'a list \<Rightarrow> py_error + 'b list" where
  "applyfunc_row f [] = Inr []"
| "applyfunc_row f (x # xs) =
     (case f x of
        Inl e \<Rightarrow> Inl e
      | Inr y \<Rightarrow> (case applyfunc_row f xs of Inl e \<Rightarrow> Inl e | Inr ys \<Rightarrow> Inr (y # ys)))"

definition applyfunc :: "('a \<Rightarrow> py_error + 'b) \<Rightarrow> 'a list list \<Rightarrow> py_error + 'b list list" where
  "applyfunc f M = applyfunc_row (applyfunc_row f) M"

text \<open>\<^verbatim>\<open>str(i)\<close> of an integer, and \<^verbatim>\<open>sep.join(xs)\<close>.\<close>

fun str_nat :: "nat \<Rightarrow> string" where
  "str_nat n =
     (if n < 10 then [char_of (48 + n)] else str_nat (n div 10) @ [char_of (48 + n mod 10)])"

definition str_int :: "int \<Rightarrow> string" where
  "str_int i = (if i < 0 then CHR ''-'' # str_nat (nat (- i)) else str_nat (nat i))"

fun join :: "string \<Rightarrow> string list \<Rightarrow> string" where
  "join sep [] = []"
| "join sep [x] = x"
| "join sep (x # y # ys) = x @ sep @ join sep (y # ys)"

text \<open>
  \<^verbatim>\<open>Yr = [ "s[ "+str(i)+" ]" for i, v in enumerate(list(Y_new[r,:])) if v == 1 ]\<close>
\<close>

definition Yr :: "int list \<Rightarrow> string list" where
  "Yr row = map (\<lambda>(i, v). ''s[ '' @ str_nat i @ '' ]'') (filter (\<lambda>(i, v). v = 1) (enumerate 0 row))"

text \<open>
  \<^verbatim>\<open>for r in range(rows): ...; if len(Yr) > 0: print(" + ".join(Yr), "= 0")\<close>; the second
  argument is the lines printed so far.
\<close>

fun equations_loop :: "int list list \<Rightarrow> string list \<Rightarrow> string list" where
  "equations_loop [] out = out"
| "equations_loop (row # rows) out =
     (if length (Yr row) > 0
      then equations_loop rows (out @ [join '' + '' (Yr row) @ '' '' @ ''= 0''])
      else equations_loop rows out)"

datatype stdout_item = OutMatrix matrix | OutIntMatrix "int list list" | OutLine string

definition header :: "nat \<Rightarrow> string" where
  "header n =
     ''The hidden bistring s[ 0 ], s[ 1 ]....s['' @ '' '' @ str_int (int n - 1) @ '' '' @
     ''] is the one satisfying the following system of linear equations:''"

text \<open>
  The whole cell. \<^verbatim>\<open>Y.rref(iszerofunc=lambda x: x % 2==0)[0]\<close> is the linear-algebra
  library's row reduction; its code is not part of the notebooks, so the cell takes it
  as the parameter \<open>rref\<close>. The result is what was printed and the exception that ended
  the cell, if any.
\<close>

definition post_processing ::
  "(matrix \<Rightarrow> py_error + matrix) \<Rightarrow> nat \<Rightarrow> counts \<Rightarrow> stdout_item list \<times> py_error option" where
  "post_processing rref n answer_plot =
     (case Y_loop (lAnswer n answer_plot) [] of
        Inl e \<Rightarrow> ([], Some e)
      | Inr Yl \<Rightarrow>
     (case Matrix Yl of
        Inl e \<Rightarrow> ([], Some e)
      | Inr Y \<Rightarrow>
     (case rref Y of
        Inl e \<Rightarrow> ([OutMatrix Y], Some e)
      | Inr Y_transformed \<Rightarrow>
     (case applyfunc (\<lambda>x. mod_py x 2) Y_transformed of
        Inl e \<Rightarrow> ([OutMatrix Y], Some e)
      | Inr Y_new \<Rightarrow>
          ([OutMatrix Y, OutIntMatrix Y_new, OutLine (header n)] @
             map OutLine (equations_loop Y_new []), None)))))"

text \<open>The line the specification gives for a reduced row: its equation.\<close>

definition equation :: "int list \<Rightarrow> string" where
  "equation row =
     join '' + '' [''s[ '' @ str_nat i @ '' ]''. i \<leftarrow> [0..<length row], row ! i = 1] @ '' = 0''"

section \<open>Device runs of the notebooks\<close>

text \<open>
  A device run is recorded with the arguments its call site writes; an argument the call
  does not pass is \<open>None\<close>. The simulator and the cloud device are outside the
  repository: a backend maps a run to the measurement counts of its result, or to the
  exception the run or the wait for its result raised.
\<close>

datatype device = LocalSimulator | AwsDevice string

record run_call =
  dev :: device
  task_specification :: circuit
  s3_destination_folder :: "(string \<times> string) option"
  shots :: int
  poll_timeout_seconds :: "int option"
  poll_interval_seconds :: "int option"

type_synonym backend = "run_call \<Rightarrow> py_error + counts"

text \<open>\<^verbatim>\<open>task = device.run(circ, shots=2*n-1)\<close>\<close>

definition local_run :: "circuit \<Rightarrow> nat \<Rightarrow> run_call" where
  "local_run circ n =
     \<lparr>dev = LocalSimulator, task_specification = circ, s3_destination_folder = None,
      shots = 2 * int n - 1, poll_timeout_seconds = None, poll_interval_seconds = None\<rparr>"

text \<open>
  \<^verbatim>\<open>ionq = AwsDevice("arn:aws:braket:::device/qpu/ionq/ionQdevice")\<close>,
  \<^verbatim>\<open>ionq_task = ionq.run(circ, s3_folder, shots=100, poll_timeout_seconds=5*24*60*60)\<close>
\<close>

definition s3_folder :: "string \<times> string" where
  "s3_folder = (''amazon-braket-251940851769'', ''simons-output'')"

definition ionq_run :: "circuit \<Rightarrow> run_call" where
  "ionq_run circ =
     \<lparr>dev = AwsDevice ''arn:aws:braket:::device/qpu/ionq/ionQdevice'',
      task_specification = circ, s3_destination_folder = Some s3_folder,
      shots = 100, poll_timeout_seconds = Some (5 * 24 * 60 * 60),
      poll_interval_seconds = None\<rparr>"

text \<open>
  The Simon notebook without the QPU cells, run from top to bottom; an exception ends
  the run. The result is the device runs made, in order, and \<^verbatim>\<open>s_calc\<close>. The hidden
  string is the parameter \<open>s\<close>: this notebook sets \<open>'110'\<close>, the one with the QPU cells
  \<open>'11011'\<close>, and both invite other values.
\<close>

definition simon_notebook :: "backend \<Rightarrow> string \<Rightarrow> run_call list \<times> (py_error + int)" where
  "simon_notebook backend s =
     (let n = length s in
      case simon_circuit s of
        Inl e \<Rightarrow> ([], Inl e)
      | Inr circ \<Rightarrow>
     (case backend (local_run circ n) of
        Inl e \<Rightarrow> ([local_run circ n], Inl e)
      | Inr measurement_counts \<Rightarrow>
          ([local_run circ n], s_calc (tally n measurement_counts))))"

text \<open>
  The Simon notebook with the QPU cells, run from top to bottom: the same cells, then the
  QPU run, the tally of its result and the post-processing.
\<close>

definition simon_qpu_notebook ::
  "backend \<Rightarrow> (matrix \<Rightarrow> py_error + matrix) \<Rightarrow> string \<Rightarrow>
     run_call list \<times> (py_error + stdout_item list)" where
  "simon_qpu_notebook backend rref s =
     (let n = length s in
      case simon_circuit s of
        Inl e \<Rightarrow> ([], Inl e)
      | Inr circ \<Rightarrow>
     (case backend (local_run circ n) of
        Inl e \<Rightarrow> ([local_run circ n], Inl e)
      | Inr measurement_counts \<Rightarrow>
     (case s_calc (tally n measurement_counts) of
        Inl e \<Rightarrow> ([local_run circ n], Inl e)
      | Inr sc \<Rightarrow>
     (case backend (ionq_run circ) of
        Inl e \<Rightarrow> ([local_run circ n, ionq_run circ], Inl e)
      | Inr qpu_counts \<Rightarrow>
          ([local_run circ n, ionq_run circ],
           (case post_processing rref n (tally n qpu_counts) of
              (out, None) \<Rightarrow> Inr out
            | (out, Some e) \<Rightarrow> Inl e))))))"

text \<open>
  The introductory notebook: seven cells, each building a fixed circuit and running it
  on the local simulator with \<^verbatim>\<open>device.run(qc, shots=...)\<close>.
\<close>

definition intro_cells :: "run_call list" where
  "intro_cells =
     map (\<lambda>(qc, sh). \<lparr>dev = LocalSimulator, task_specification = qc,
                       s3_destination_folder = None, shots = sh,
                       poll_timeout_seconds = None, poll_interval_seconds = None\<rparr>)
       [([I_gate 0], 100),
        ([X_gate 0], 100),
        ([H_gate 0], 100),
        ([H_gate 0, H_gate 1], 100),
        ([I_gate 0, I_gate 1, CNot 0 1], 100),
        ([H_gate 0, CNot 0 1], 100),
        ([H_gate 0, CNot 0 1, CNot 1 2, CNot 2 3, CNot 3 4, CNot 4 5, CNot 5 6], 10000)]"

fun run_cells ::
  "backend \<Rightarrow> run_call list \<Rightarrow> run_call list \<Rightarrow> counts list \<Rightarrow>
     run_call list \<times> (py_error + counts list)" where
  "run_cells backend [] runs printed = (runs, Inr printed)"
| "run_cells backend (c # cs) runs printed =
     (case backend c of
        Inl e \<Rightarrow> (runs @ [c], Inl e)
      | Inr measurement_counts \<Rightarrow>
          run_cells backend cs (runs @ [c]) (printed @ [measurement_counts]))"

definition intro_notebook :: "backend \<Rightarrow> run_call list \<times> (py_error + counts list)" where
  "intro_notebook backend = run_cells backend intro_cells [] []"

text \<open>
  The counts the notebook records for its simulator run with \<open>s = 11011\<close>, as a backend
  that answers every run with them, and a row reduction that returns its argument: for
  the matrix of the recorded run, a single row that is already reduced, this is what the
  notebook records the library to return.
\<close>

definition recorded_counts :: counts where
  "recorded_counts =
     [(''1101111111'', 4), (''0000000000'', 3), (''1101100000'', 1), (''0000011111'', 1)]"

definition recorded_backend :: backend where
  "recorded_backend c = Inr recorded_counts"

definition rref_unchanged :: "matrix \<Rightarrow> py_error + matrix" where
  "rref_unchanged Y = Inr Y"

text \<open>The bit vector of a measured prefix, and a backend whose cloud device fails.\<close>

definition bit_vector :: "string \<Rightarrow> int list" where
  "bit_vector k = map (\<lambda>c. if c = CHR ''1'' then 1 else 0) k"

definition qpu_down_backend :: backend where
  "qpu_down_backend c = (if dev c = LocalSimulator then Inr recorded_counts else Inl DeviceError)"

text \<open>A backend that fails on the circuit of the third cell of the introductory notebook.\<close>

definition h_down_backend :: backend where
  "h_down_backend c =
     (if task_specification c = [H_gate 0] then Inl DeviceError else Inr recorded_counts)"

section \<open>The outcomes of the noiseless simulator\<close>







text \<open>A backend whose every shot gave the all-zero result.\<close>

definition zero_backend :: backend where
  "zero_backend c = Inr [(''0000000000'', 9)]"

section \<open>Facts about the primitives\<close>

lemma py_int_single:
  "py_int [c] = (if is_digit c then Inr (digit_val c) else Inl ValueError)"
proof (cases "py_isspace c")
  case True
  then have "\<not> is_digit c"
    by (auto simp: py_isspace_def is_digit_def)
  with True show ?thesis
    by (simp add: py_int_def py_strip_def)
next
  case False
  then have st: "py_strip [c] = [c]"
    by (simp add: py_strip_def)
  have sg: "c = CHR ''-'' \<or> c = CHR ''+'' \<or> c = CHR ''_'' \<Longrightarrow> \<not> is_digit c"
    by (auto simp: is_digit_def)
  show ?thesis
    using sg by (auto simp: py_int_def st dec_value_def)
qed

lemma py_int_bit:
  "c = CHR ''0'' \<or> c = CHR ''1'' \<Longrightarrow> py_int [c] = Inr (if c = CHR ''1'' then 1 else 0)"
  by (auto simp: py_int_single is_digit_def digit_val_def)

section \<open>The circuit that is built\<close>


lemma fold_append_map: "fold (\<lambda>j c. c @ [f j]) xs circ = circ @ map f xs"
  by (induction xs arbitrary: circ) auto

lemma cnot_row_eq: "cnot_row n i circ = circ @ map (\<lambda>j. CNot i (n + j)) [0..<n]"
  by (simp add: cnot_row_def fold_append_map)

lemma oracle_loop_bitstring:
  "is_bitstring s \<Longrightarrow> \<forall>i \<in> set js. i < length s \<Longrightarrow>
   oracle_loop s n js circ =
     Inr (circ @ concat (map (\<lambda>i. if s ! i = CHR ''1''
                                    then map (\<lambda>j. CNot i (n + j)) [0..<n] else []) js))"
proof (induction js arbitrary: circ)
  case Nil
  then show ?case by simp
next
  case (Cons i js)
  from Cons.prems have i: "i < length s" by simp
  with Cons.prems(1) have b: "s ! i = CHR ''0'' \<or> s ! i = CHR ''1''"
    by (simp add: is_bitstring_def list_all_length)
  show ?case
    using Cons.IH [OF Cons.prems(1)] Cons.prems(2) i b
    by (auto simp: py_index_def py_int_bit cnot_row_eq)
qed

lemma oracle_spec_concat:
  "oracle_spec s =
     concat (map (\<lambda>i. if s ! i = CHR ''1''
                        then map (\<lambda>j. CNot i (length s + j)) [0..<length s] else [])
       [0..<length s])"
  unfolding oracle_spec_def
  by (rule arg_cong [where f = concat], rule map_cong) (auto simp: map_concat comp_def)

lemma length_filter_nth:
  "length (filter (\<lambda>i. P (s ! i)) [0..<length s]) = length (filter P s)"
proof -
  have "filter P s = filter P (map ((!) s) [0..<length s])"
    by (simp add: map_nth)
  also have "length \<dots> = length (filter (\<lambda>i. P (s ! i)) [0..<length s])"
    by (simp add: filter_map comp_def)
  finally show ?thesis by simp
qed

lemma length_concat_if:
  "length (concat (map (\<lambda>i. if P i then map (f i) ys else []) xs)) =
     length ys * length (filter P xs)"
  by (induction xs) auto

lemma oracle_spec_length:
  "length (oracle_spec s) = length s * count_list s (CHR ''1'')"
proof -
  have "length (oracle_spec s) =
          length s * length (filter (\<lambda>i. s ! i = CHR ''1'') [0..<length s])"
    by (simp add: oracle_spec_concat length_concat_if)
  also have "\<dots> = length s * length (filter (\<lambda>c. c = CHR ''1'') s)"
    by (simp add: length_filter_nth [where P = "\<lambda>c. c = CHR ''1''"])
  also have "(\<lambda>c. c = CHR ''1'') = ((=) (CHR ''1''))"
    by auto
  finally show ?thesis
    by (simp add: count_list_eq_length_filter)
qed

lemma oracle_spec_cnots: "filter is_cnot (oracle_spec s) = oracle_spec s"
  by (rule filter_True) (auto simp: oracle_spec_def)

text \<open>
  C3: for a hidden bit string \<open>s\<close> of length \<open>n\<close> the construction succeeds, and the circuit
  is the Hadamards on qubits \<open>0..n-1\<close>, then \<open>cnot(i, n + j)\<close> for exactly the pairs with
  \<open>s[i] = '1'\<close> and \<open>0 \<le> j < n\<close>, by increasing \<open>i\<close> then increasing \<open>j\<close>, then the
  Hadamards on qubits \<open>0..n-1\<close> again: \<open>n\<close> times the number of ones of \<open>s\<close>
  controlled-NOTs, and the \<open>2n\<close> Hadamards as the only other gates.
\<close>

theorem oracle_construction:
  assumes "is_bitstring s"
  shows "\<exists>circ. simon_circuit s = Inr circ
           \<and> circ = map H_gate [0..<length s] @ oracle_spec s @ map H_gate [0..<length s]
           \<and> length (filter is_cnot circ) = length s * count_list s (CHR ''1'')
           \<and> length (filter (\<lambda>g. \<not> is_cnot g) circ) = 2 * length s"
proof -
  have loop: "oracle_loop s (length s) [0..<length s] (h_range (length s) []) =
                Inr (map H_gate [0..<length s] @ oracle_spec s)"
    using assms by (simp add: oracle_loop_bitstring h_range_def oracle_spec_concat)
  have hs: "filter is_cnot (map H_gate xs) = []" for xs
    by (induction xs) auto
  have hs': "filter (\<lambda>g. \<not> is_cnot g) (map H_gate xs) = map H_gate xs" for xs
    by (induction xs) auto
  have cn: "filter (\<lambda>g. \<not> is_cnot g) (oracle_spec s) = []"
    using oracle_spec_cnots [of s] by (metis filter_False filter_id_conv)
  have "simon_circuit s =
          Inr (map H_gate [0..<length s] @ oracle_spec s @ map H_gate [0..<length s])"
    unfolding simon_circuit_def Let_def loop by (simp add: h_range_def)
  then show ?thesis
    by (simp add: hs hs' cn oracle_spec_cnots oracle_spec_length)
qed

theorem oracle_construction_witness:
  "is_bitstring ''110'' \<and>
   simon_circuit ''110'' =
     Inr [H_gate 0, H_gate 1, H_gate 2, CNot 0 3, CNot 0 4, CNot 0 5,
          CNot 1 3, CNot 1 4, CNot 1 5, H_gate 0, H_gate 1, H_gate 2]"
proof -
  have b: "is_bitstring ''110''" by (simp add: is_bitstring_def)
  have sp: "oracle_spec ''110'' = [CNot 0 3, CNot 0 4, CNot 0 5, CNot 1 3, CNot 1 4, CNot 1 5]"
    by code_simp
  have up: "[0..<length ''110''] = [0, 1, 2]" by code_simp
  from oracle_construction [OF b] b show ?thesis
    by (auto simp: sp up)
qed

section \<open>The tally groups counts by prefix\<close>


lemma tally_loop_keys:
  "fst ` set (tally_loop n mc ks ap) = fst ` set ap \<union> take n ` set ks"
proof (induction ks arbitrary: ap)
  case Nil
  then show ?case by simp
next
  case (Cons k ks)
  have "fst ` set (AList.update (take n k) v ap) = insert (take n k) (fst ` set ap)" for v
    using AList.dom_update [of "take n k" v ap] by (simp add: dom_map_of_conv_image_fst)
  then show ?case
    by (auto simp: Cons.IH Let_def split: option.splits)
qed

lemma tally_loop_distinct:
  "distinct (map fst ap) \<Longrightarrow> distinct (map fst (tally_loop n mc ks ap))"
  by (induction ks arbitrary: ap) (auto simp: Let_def AList.distinct_update split: option.splits)

lemma tally_loop_value:
  "map_of (tally_loop n mc ks ap) p =
     (if p \<in> fst ` set ap \<union> take n ` set ks
      then Some ((case map_of ap p of None \<Rightarrow> 0 | Some v \<Rightarrow> v) +
                 sum_list (map (counter_get mc) (filter (\<lambda>k. take n k = p) ks)))
      else None)"
proof (induction ks arbitrary: ap)
  case Nil
  then show ?case
    by (auto simp: map_of_eq_None_iff split: option.splits)
next
  case (Cons k ks)
  have keys: "fst ` set (AList.update (take n k) v ap) = insert (take n k) (fst ` set ap)" for v
    using AList.dom_update [of "take n k" v ap] by (simp add: dom_map_of_conv_image_fst)
  show ?case
  proof (cases "map_of ap (take n k)")
    case None
    then show ?thesis
      by (auto simp: Cons.IH keys AList.update_conv' split: option.splits)
  next
    case (Some old)
    then have "take n k \<in> fst ` set ap"
      by (force dest: map_of_SomeD)
    with Some show ?thesis
      by (auto simp: Cons.IH keys AList.update_conv' split: option.splits)
  qed
qed

lemma sum_update:
  "distinct (map fst al) \<Longrightarrow>
   sum_list (map snd (AList.update k v al)) =
     sum_list (map snd al) - (case map_of al k of None \<Rightarrow> 0 | Some old \<Rightarrow> old) + (v::int)"
proof (induction al)
  case Nil
  then show ?case by simp
next
  case (Cons p al)
  then show ?case
    by (cases p) (auto simp: map_of_eq_None_iff [symmetric] image_iff split: option.splits)
qed

lemma tally_loop_total:
  "distinct (map fst ap) \<Longrightarrow>
   sum_list (map snd (tally_loop n mc ks ap)) =
     sum_list (map snd ap) + sum_list (map (counter_get mc) ks)"
proof (induction ks arbitrary: ap)
  case Nil
  then show ?case by simp
next
  case (Cons k ks)
  show ?case
    using Cons.prems
    by (auto simp: Let_def Cons.IH AList.distinct_update sum_update split: option.splits)
qed

lemma counter_get_keys:
  "distinct (map fst mc) \<Longrightarrow> map (counter_get mc) (map fst mc) = map snd mc"
  by (auto simp: counter_get_def)

lemma counter_get_filter:
  assumes "distinct (map fst mc)"
  shows "map (counter_get mc) (filter P (map fst mc)) = map snd (filter (\<lambda>kv. P (fst kv)) mc)"
proof -
  have "counter_get mc (fst kv) = snd kv" if "kv \<in> set mc" for kv
    using assms that by (cases kv) (simp add: counter_get_def)
  then have "map (counter_get mc \<circ> fst) (filter (\<lambda>kv. P (fst kv)) mc)
               = map snd (filter (\<lambda>kv. P (fst kv)) mc)"
    by (intro map_cong) auto
  then show ?thesis
    by (simp add: filter_map comp_def)
qed

text \<open>
  C5: for measurement counts with distinct result strings, the keys of \<open>answer_plot\<close> are
  exactly the \<open>n\<close>-character prefixes of the observed result strings (of length \<open>n\<close> when
  the results have \<open>2n\<close> bits), each prefix is mapped to the sum of the counts of all
  result strings that share it, and the values of \<open>answer_plot\<close> add up to the values of
  the measurement counts.
\<close>

theorem tally_prefix_grouping:
  assumes "distinct (map fst mc)"
  shows "fst ` set (tally n mc) = take n ` fst ` set mc
       \<and> distinct (map fst (tally n mc))
       \<and> (\<forall>p \<in> take n ` fst ` set mc.
            map_of (tally n mc) p =
              Some (sum_list (map snd (filter (\<lambda>kv. take n (fst kv) = p) mc))))
       \<and> sum_list (map snd (tally n mc)) = sum_list (map snd mc)
       \<and> ((\<forall>k \<in> fst ` set mc. length k = 2 * n) \<longrightarrow>
            (\<forall>p \<in> fst ` set (tally n mc). length p = n))"
proof -
  have keys: "fst ` set (tally n mc) = take n ` fst ` set mc"
    by (simp add: tally_def tally_loop_keys)
  have dist: "distinct (map fst (tally n mc))"
    by (simp add: tally_def tally_loop_distinct)
  have val: "map_of (tally n mc) p =
               Some (sum_list (map snd (filter (\<lambda>kv. take n (fst kv) = p) mc)))"
    if "p \<in> take n ` fst ` set mc" for p
    using that
    by (simp add: tally_def tally_loop_value
        counter_get_filter [OF assms, where P = "\<lambda>k. take n k = p"])
  have "sum_list (map snd (tally n mc)) = sum_list (map (counter_get mc) (map fst mc))"
    using tally_loop_total [of "[]" n mc "map fst mc"] by (simp add: tally_def)
  then have tot: "sum_list (map snd (tally n mc)) = sum_list (map snd mc)"
    unfolding counter_get_keys [OF assms] by simp
  have len: "\<forall>p \<in> fst ` set (tally n mc). length p = n"
    if "\<forall>k \<in> fst ` set mc. length k = 2 * n"
    using that unfolding keys by auto
  from keys dist val tot len show ?thesis
    by blast
qed

theorem tally_prefix_grouping_witness:
  "distinct (map fst recorded_counts)
   \<and> fst ` set (tally 5 recorded_counts) = {''11011'', ''00000''}
   \<and> map_of (tally 5 recorded_counts) ''11011'' = Some 5
   \<and> sum_list (map snd (tally 5 recorded_counts)) = 9
   \<and> list_all (\<lambda>k. length k = 2 * 5) (map fst recorded_counts)
   \<and> list_all (\<lambda>p. length p = 5) (map fst (tally 5 recorded_counts))"
proof -
  have d: "distinct (map fst recorded_counts)"
    by (simp add: recorded_counts_def)
  have l: "\<forall>k \<in> fst ` set recorded_counts. length k = 2 * 5"
    by (simp add: recorded_counts_def)
  have k: "take 5 ` fst ` set recorded_counts = {''11011'', ''00000''}"
    by (auto simp: recorded_counts_def)
  have m: "''11011'' \<in> take 5 ` fst ` set recorded_counts"
    by (simp add: recorded_counts_def)
  have s: "sum_list (map snd (filter (\<lambda>kv. take 5 (fst kv) = ''11011'') recorded_counts)) = 5"
    by (simp add: recorded_counts_def)
  have t: "sum_list (map snd recorded_counts) = 9"
    by (simp add: recorded_counts_def)
  from tally_prefix_grouping [OF d, of 5] d l k m s t show ?thesis
    unfolding list_all_iff set_map by (auto simp del: One_nat_def)
qed

section \<open>The recovery step\<close>


lemma unpack2_Inr_iff: "(\<exists>y1 y2. unpack2 xs = Inr (y1, y2)) \<longleftrightarrow> length xs = 2"
proof (cases xs)
  case Nil
  then show ?thesis by simp
next
  case (Cons a as)
  show ?thesis
  proof (cases as)
    case Nil
    with Cons show ?thesis by simp
  next
    case (Cons b bs)
    with \<open>xs = a # as\<close> show ?thesis by (cases bs) auto
  qed
qed

lemma unpack2_Inl: "length xs \<noteq> 2 \<Longrightarrow> unpack2 xs = Inl ValueError"
  using unpack2_Inr_iff [of xs]
  by (cases "unpack2 xs") (auto elim: unpack2.elims)

text \<open>
  C9: \<open>y1, y2 = answer_plot.keys()\<close> succeeds exactly when the tally holds two distinct
  prefixes; with fewer or more the unpacking raises ValueError and no \<open>s_calc\<close> is
  produced.
\<close>

theorem unpack_two_keys:
  assumes "distinct (map fst mc)"
  shows "((\<exists>y1 y2. unpack2 (map fst (tally n mc)) = Inr (y1, y2))
            \<longleftrightarrow> card (take n ` fst ` set mc) = 2)
       \<and> (card (take n ` fst ` set mc) \<noteq> 2 \<longrightarrow>
            unpack2 (map fst (tally n mc)) = Inl ValueError
            \<and> s_calc (tally n mc) = Inl ValueError)"
proof -
  have "card (take n ` fst ` set mc) = card (set (map fst (tally n mc)))"
    by (simp add: tally_def tally_loop_keys)
  also have "\<dots> = length (map fst (tally n mc))"
    by (rule distinct_card) (simp add: tally_def tally_loop_distinct)
  finally have c: "card (take n ` fst ` set mc) = length (map fst (tally n mc))" .
  show ?thesis
    unfolding c using unpack2_Inr_iff [of "map fst (tally n mc)"]
    by (auto simp: s_calc_def unpack2_Inl simp del: length_map)
qed

theorem unpack_two_keys_witness:
  "distinct (map fst recorded_counts)
   \<and> card (take 5 ` fst ` set recorded_counts) = 2
   \<and> (\<exists>y1 y2. unpack2 (map fst (tally 5 recorded_counts)) = Inr (y1, y2))
   \<and> card (take 10 ` fst ` set recorded_counts) \<noteq> 2
   \<and> s_calc (tally 10 recorded_counts) = Inl ValueError"
proof -
  have d: "distinct (map fst recorded_counts)"
    by (simp add: recorded_counts_def)
  have k: "take 5 ` fst ` set recorded_counts = {''11011'', ''00000''}"
    by (auto simp: recorded_counts_def)
  have c5: "card (take 5 ` fst ` set recorded_counts) = 2"
    unfolding k by simp
  have "card (fst ` set recorded_counts) = 4"
    by (simp add: recorded_counts_def)
  then have c10: "card (take 10 ` fst ` set recorded_counts) \<noteq> 2"
    by (simp add: recorded_counts_def)
  from unpack_two_keys [OF d, of 5] unpack_two_keys [OF d, of 10] d c5 c10
  show ?thesis by blast
qed

text \<open>
  The recovery step reads the two keys as decimal integers before it XORs them. On keys
  that are not the all-zero string and \<open>s\<close>, which the noiseless simulator never returns
  for this circuit, the result can differ from the reading of the bitwise XOR: for
  \<open>1111\<close> and \<open>0111\<close> it is 1080, while the bitwise XOR is \<open>1000\<close>.
\<close>

lemma s_calc_decimal_xor:
  "tally 4 [(''11110000'', 5), (''01110000'', 4)] = [(''1111'', 5), (''0111'', 4)]
   \<and> s_calc [(''1111'', 5), (''0111'', 4)] = Inr 1080
   \<and> xor_str ''1111'' ''0111'' = ''1000''
   \<and> py_int (xor_str ''1111'' ''0111'') = Inr 1000"
  by code_simp

section \<open>The function of the oracle at two hidden strings\<close>

text \<open>
  C4: the function of the oracle at two hidden strings. For \<open>s = 100\<close> the inputs \<open>000\<close>
  and \<open>000 XOR s = 100\<close> have different images, \<open>000\<close> and \<open>111\<close>. For \<open>s = 110\<close> four
  inputs share the image of \<open>000\<close>.
\<close>

theorem oracle_not_simon:
  "oracle_f ''100'' [False, False, False] = Some [False, False, False]
   \<and> xor_bits [False, False, False] (bits_of ''100'') = [True, False, False]
   \<and> oracle_f ''100'' [True, False, False] = Some [True, True, True]
   \<and> preimages ''110'' [False, False, False] =
       [[False, False, False], [True, True, False], [False, False, True], [True, True, True]]"
  by code_simp

section \<open>Reduction modulo 2\<close>


lemma upto_0_1: "[0..(1::int)] = [0, 1]"
  by (simp add: upto.simps)

lemma mod_inverse_2: "mod_inverse d 2 = (if odd d then Inr 1 else Inl ValueError)"
  by (auto simp: mod_inverse_def upto_0_1)

lemma mod_py_2:
  "mod_py x 2 =
     (if odd (snd (quotient_of x)) then Inr (fst (quotient_of x) mod 2) else Inl ValueError)"
  by (cases "quotient_of x") (simp add: mod_py_def mod_inverse_2)

lemma applyfunc_row_Inr_iff:
  "(\<exists>ys. applyfunc_row f xs = Inr ys) \<longleftrightarrow> (\<forall>x \<in> set xs. \<exists>y. f x = Inr y)"
proof (induction xs)
  case Nil
  then show ?case by simp
next
  case (Cons x xs)
  show ?case
  proof (cases "f x")
    case (Inl e)
    then show ?thesis by auto
  next
    case (Inr y)
    with Cons.IH show ?thesis
      by (cases "applyfunc_row f xs") auto
  qed
qed

lemma applyfunc_row_entries:
  "applyfunc_row f xs = Inr ys \<Longrightarrow> y \<in> set ys \<Longrightarrow> \<exists>x \<in> set xs. f x = Inr y"
  by (induction xs arbitrary: ys) (auto split: sum.splits)

text \<open>
  C10: the helper \<open>mod(x, 2)\<close> is partial. For a rational \<open>x\<close> with an odd denominator the
  inverse of the denominator modulo 2 is 1 and \<open>mod(x, 2)\<close> returns
  \<open>numer * mod_inverse(denom, 2) % 2\<close>, which is 0 or 1. For an even denominator
  \<open>mod_inverse\<close> raises ValueError and so does \<open>mod\<close>. Hence \<open>applyfunc\<close> of the helper
  on a matrix returns exactly when every entry has an odd denominator, and then every
  entry of the result is 0 or 1.
\<close>

theorem mod_two_partial:
  "(odd (snd (quotient_of x)) \<longrightarrow>
      mod_inverse (snd (quotient_of x)) 2 = Inr 1
      \<and> mod_py x 2 = Inr (fst (quotient_of x) * 1 mod 2)
      \<and> (mod_py x 2 = Inr 0 \<or> mod_py x 2 = Inr 1))
   \<and> (even (snd (quotient_of x)) \<longrightarrow>
      mod_inverse (snd (quotient_of x)) 2 = Inl ValueError
      \<and> mod_py x 2 = Inl ValueError)
   \<and> ((\<exists>Y_new. applyfunc (\<lambda>x. mod_py x 2) M = Inr Y_new) \<longleftrightarrow>
        (\<forall>row \<in> set M. \<forall>x \<in> set row. odd (snd (quotient_of x))))
   \<and> (\<forall>Y_new. applyfunc (\<lambda>x. mod_py x 2) M = Inr Y_new \<longrightarrow>
        (\<forall>row \<in> set Y_new. \<forall>v \<in> set row. v = 0 \<or> v = 1))"
proof -
  have ok: "(\<exists>y. mod_py x 2 = Inr y) \<longleftrightarrow> odd (snd (quotient_of x))" for x
    by (simp add: mod_py_2)
  have rows: "(\<exists>Y_new. applyfunc (\<lambda>x. mod_py x 2) M = Inr Y_new) \<longleftrightarrow>
        (\<forall>row \<in> set M. \<forall>x \<in> set row. odd (snd (quotient_of x)))"
    unfolding applyfunc_def applyfunc_row_Inr_iff ok ..
  have bits: "v = 0 \<or> v = 1"
    if "applyfunc (\<lambda>x. mod_py x 2) M = Inr Y_new" "row \<in> set Y_new" "v \<in> set row"
    for Y_new row v
  proof -
    from that(1,2) obtain r where "applyfunc_row (\<lambda>x. mod_py x 2) r = Inr row"
      unfolding applyfunc_def by (blast dest: applyfunc_row_entries)
    with that(3) obtain x where "mod_py x 2 = Inr v"
      by (blast dest: applyfunc_row_entries)
    then show ?thesis
      by (auto simp: mod_py_2 split: if_splits)
  qed
  have one: "mod_py x 2 = Inr 0 \<or> mod_py x 2 = Inr 1" if "odd (snd (quotient_of x))"
    using that by (auto simp: mod_py_2)
  from rows bits one show ?thesis
    by (auto simp: mod_inverse_2 mod_py_2)
qed

lemma q12: "quotient_of (1 / 2) = (1, 2)" by code_simp
lemma q53: "quotient_of (- (5 / 3)) = (- 5, 3)" by code_simp

theorem mod_two_partial_witness:
  "odd (snd (quotient_of (- 5 / 3))) \<and> mod_py (- 5 / 3) 2 = Inr 1
   \<and> even (snd (quotient_of (1 / 2))) \<and> mod_py (1 / 2) 2 = Inl ValueError
   \<and> applyfunc (\<lambda>x. mod_py x 2) [[1 / 2]] = Inl ValueError"
proof -
  have a: "mod_py (- 5 / 3) 2 = Inr 1"
    using mod_two_partial [of "- 5 / 3" "[]"] by (simp add: q53)
  have b: "mod_py (1 / 2) 2 = Inl ValueError"
    using mod_two_partial [of "1 / 2" "[]"] by (simp add: q12)
  have "\<not> (\<exists>Y_new. applyfunc (\<lambda>x. mod_py x 2) [[1 / 2]] = Inr Y_new)"
    using mod_two_partial [of 0 "[[1 / 2]]"] by (simp add: q12)
  then have c: "applyfunc (\<lambda>x. mod_py x 2) [[1 / 2]] = Inl ValueError"
    by (simp add: applyfunc_def b)
  from a b c show ?thesis by (simp add: q53 q12)
qed

section \<open>The post-processing cell\<close>


lemma int_chars_bits: "is_bitstring k \<Longrightarrow> int_chars k = Inr (bit_vector k)"
  by (induction k) (auto simp: is_bitstring_def bit_vector_def py_int_bit)

lemma Y_loop_bits:
  "\<forall>kv \<in> set L. is_bitstring (fst kv) \<Longrightarrow>
   Y_loop L Y = Inr (Y @ map (\<lambda>kv. bit_vector (fst kv)) L)"
proof (induction L arbitrary: Y)
  case Nil
  then show ?case by simp
next
  case (Cons kv L)
  then show ?case
    by (cases kv) (simp add: int_chars_bits)
qed

lemma Matrix_same_length:
  "\<forall>r \<in> set rows. length r = n \<Longrightarrow> Matrix rows = Inr (map (map of_int) rows)"
proof (cases rows)
  case Nil
  then show ?thesis by (simp add: Matrix_def)
next
  case (Cons r rs)
  assume "\<forall>r \<in> set rows. length r = n"
  with Cons show ?thesis by (simp add: Matrix_def)
qed

lemma set_lAnswer:
  "set (lAnswer n ap) = {kv \<in> set ap. fst kv \<noteq> replicate n (CHR ''0'')}"
  by (auto simp: lAnswer_def)

lemma lAnswer_descending: "sorted_wrt (\<lambda>a b. b \<le> a) (map snd (lAnswer n ap))"
proof -
  have "sorted (map (\<lambda>x. - snd x) (lAnswer n ap))"
    by (simp add: lAnswer_def)
  then have "sorted_wrt (\<lambda>a b. - a \<le> - b) (map snd (lAnswer n ap))"
    by (simp add: sorted_wrt_map)
  then show ?thesis by simp
qed

lemma enumerate_filter_map:
  "map (\<lambda>(i, v). g i) (filter (\<lambda>(i, v). P v) (enumerate 0 row)) =
     map g (filter (\<lambda>i. P (row ! i)) [0..<length row])"
proof (induction row rule: rev_induct)
  case Nil
  then show ?case by simp
next
  case (snoc x xs)
  have "filter (\<lambda>i. P ((xs @ [x]) ! i)) [0..<length xs] = filter (\<lambda>i. P (xs ! i)) [0..<length xs]"
    by (rule filter_cong) (auto simp: nth_append)
  with snoc show ?case
    by (simp add: enumerate_append_eq)
qed

lemma comprehension_filter: "[g i. i \<leftarrow> xs, P i] = map g (filter P xs)"
  by (induction xs) auto

lemma Yr_eq: "Yr row = [''s[ '' @ str_nat i @ '' ]''. i \<leftarrow> [0..<length row], row ! i = 1]"
  unfolding Yr_def comprehension_filter
  by (rule enumerate_filter_map [where P = "\<lambda>v. v = 1"])

lemma Yr_nonempty: "0 < length (Yr row) \<longleftrightarrow> 1 \<in> set row"
proof -
  have "0 < length (Yr row) \<longleftrightarrow> (\<exists>i < length row. row ! i = 1)"
    unfolding Yr_eq comprehension_filter by (auto simp: filter_empty_conv)
  then show ?thesis by (auto simp: in_set_conv_nth)
qed

lemma equations_loop_eq:
  "equations_loop rows out = out @ map equation (filter (\<lambda>row. 1 \<in> set row) rows)"
proof (induction rows arbitrary: out)
  case Nil
  then show ?case by simp
next
  case (Cons row rows)
  have "join '' + '' (Yr row) @ '' '' @ ''= 0'' = equation row"
    by (simp add: equation_def Yr_eq)
  with Cons show ?case
    by (simp add: Yr_nonempty del: length_greater_0_conv)
qed

section \<open>Device runs\<close>


lemma recorded_circuit:
  "simon_circuit ''11011'' =
     Inr [H_gate 0, H_gate 1, H_gate 2, H_gate 3, H_gate 4,
          CNot 0 5, CNot 0 6, CNot 0 7, CNot 0 8, CNot 0 9,
          CNot 1 5, CNot 1 6, CNot 1 7, CNot 1 8, CNot 1 9,
          CNot 3 5, CNot 3 6, CNot 3 7, CNot 3 8, CNot 3 9,
          CNot 4 5, CNot 4 6, CNot 4 7, CNot 4 8, CNot 4 9,
          H_gate 0, H_gate 1, H_gate 2, H_gate 3, H_gate 4]"
  by code_simp

lemma recorded_s_calc: "s_calc (tally (length ''11011'') recorded_counts) = Inr 11011"
  by code_simp

lemma simon_qpu_notebook_runs:
  "simon_circuit s = Inr circ \<Longrightarrow>
   backend (local_run circ (length s)) = Inr mc \<Longrightarrow>
   s_calc (tally (length s) mc) = Inr v \<Longrightarrow>
   backend (ionq_run circ) = Inr qc \<Longrightarrow>
   fst (simon_qpu_notebook backend rref s) = [local_run circ (length s), ionq_run circ]"
  by (simp add: simon_qpu_notebook_def Let_def)

lemma recorded_runs:
  "\<exists>circ. fst (simon_qpu_notebook recorded_backend rref_unchanged ''11011'') =
            [local_run circ (length ''11011''), ionq_run circ]"
proof -
  obtain circ where c: "simon_circuit ''11011'' = Inr circ"
    using recorded_circuit by blast
  show ?thesis
    using simon_qpu_notebook_runs [OF c _ recorded_s_calc, of recorded_backend]
    by (auto simp: recorded_backend_def)
qed

text \<open>
  C7, as stated, fails: in the run recorded in the notebook the submission to the cloud
  device carries an explicit polling timeout of \<open>5 * 24 * 60 * 60\<close> seconds; the simulator
  run carries none.
\<close>

theorem qpu_run_explicit_timeout:
  "map poll_timeout_seconds (fst (simon_qpu_notebook recorded_backend rref_unchanged ''11011''))
     = [None, Some (5 * 24 * 60 * 60)]
   \<and> map dev (fst (simon_qpu_notebook recorded_backend rref_unchanged ''11011''))
     = [LocalSimulator, AwsDevice ''arn:aws:braket:::device/qpu/ionq/ionQdevice'']"
  using recorded_runs by (auto simp: local_run_def ionq_run_def)

text \<open>
  C7, amended: the submission to the cloud device passes the circuit, the S3 folder,
  \<open>shots = 100\<close> and an explicit polling timeout of 432000 seconds (five days), and no
  polling interval; the simulator run passes neither. There is no retry or recovery: when
  the cloud run raises, the notebook ends with that exception after this one submission.
\<close>

theorem qpu_run_arguments:
  "poll_timeout_seconds (ionq_run circ) = Some 432000
   \<and> poll_interval_seconds (ionq_run circ) = None
   \<and> shots (ionq_run circ) = 100
   \<and> s3_destination_folder (ionq_run circ) = Some s3_folder
   \<and> poll_timeout_seconds (local_run circ n) = None
   \<and> poll_interval_seconds (local_run circ n) = None
   \<and> (simon_circuit s = Inr circ \<longrightarrow>
        backend (local_run circ (length s)) = Inr mc \<longrightarrow>
        s_calc (tally (length s) mc) = Inr v \<longrightarrow>
        backend (ionq_run circ) = Inl e \<longrightarrow>
        simon_qpu_notebook backend rref s = ([local_run circ (length s), ionq_run circ], Inl e))"
  by (simp add: ionq_run_def local_run_def simon_qpu_notebook_def Let_def)

theorem qpu_run_arguments_witness:
  "simon_circuit ''11011'' \<noteq> Inl ValueError
   \<and> s_calc (tally (length ''11011'') recorded_counts) = Inr 11011
   \<and> snd (simon_qpu_notebook qpu_down_backend rref_unchanged ''11011'') = Inl DeviceError
   \<and> map dev (fst (simon_qpu_notebook qpu_down_backend rref_unchanged ''11011''))
       = [LocalSimulator, AwsDevice ''arn:aws:braket:::device/qpu/ionq/ionQdevice'']"
proof -
  obtain circ where c: "simon_circuit ''11011'' = Inr circ"
    using recorded_circuit by blast
  have l: "qpu_down_backend (local_run circ (length ''11011'')) = Inr recorded_counts"
    by (simp add: qpu_down_backend_def local_run_def)
  have q: "qpu_down_backend (ionq_run circ) = Inl DeviceError"
    by (simp add: qpu_down_backend_def ionq_run_def)
  note s = recorded_s_calc
  from qpu_run_arguments [where circ = circ and s = "''11011''" and backend = qpu_down_backend
      and mc = recorded_counts and v = 11011 and e = DeviceError and rref = rref_unchanged] c l q s
  have "simon_qpu_notebook qpu_down_backend rref_unchanged ''11011'' =
          ([local_run circ (length ''11011''), ionq_run circ], Inl DeviceError)"
    by blast
  with c s show ?thesis
    by (simp add: local_run_def ionq_run_def del: length_Cons list.size)
qed

text \<open>
  C8, as stated, fails: the notebook with the QPU cells, run on the recorded counts, makes
  two device runs.
\<close>

theorem two_device_runs:
  "\<not> length (fst (simon_qpu_notebook recorded_backend rref_unchanged ''11011'')) \<le> 1"
  using recorded_runs by auto

section \<open>The oracle and the recovery step in general\<close>


lemma classical_run_append:
  "classical_run (gs @ hs) b =
     (case classical_run gs b of None \<Rightarrow> None | Some b' \<Rightarrow> classical_run hs b')"
  by (induction gs arbitrary: b) (auto split: option.splits)

lemma cnot_targets_run:
  "i < length x \<Longrightarrow> \<forall>j \<in> set js. j < length r \<Longrightarrow>
   classical_run (map (\<lambda>j. CNot i (length x + j)) js) (x @ r) =
     Some (x @ fold (\<lambda>j r. r[j := (r ! j \<noteq> x ! i)]) js r)"
proof (induction js arbitrary: r)
  case Nil
  then show ?case by simp
next
  case (Cons j js)
  from Cons.prems have j: "j < length r" by simp
  have step: "classical_step (CNot i (length x + j)) (x @ r) =
                Some (x @ r[j := (r ! j \<noteq> x ! i)])"
    using Cons.prems(1) j by (simp add: nth_append list_update_append)
  have "\<forall>j' \<in> set js. j' < length (r[j := (r ! j \<noteq> x ! i)])"
    using Cons.prems(2) by simp
  from Cons.IH [OF Cons.prems(1) this] step show ?case by simp
qed

lemma fold_flip_all:
  "fold (\<lambda>j r. r[j := (r ! j \<noteq> c)]) [0..<length r] r = map (\<lambda>b. b \<noteq> c) r"
proof -
  have "m \<le> length r \<Longrightarrow>
        fold (\<lambda>j r. r[j := (r ! j \<noteq> c)]) [0..<m] r = map (\<lambda>b. b \<noteq> c) (take m r) @ drop m r" for m
  proof (induction m)
    case 0
    then show ?case by simp
  next
    case (Suc m)
    then have m: "m < length r" by simp
    have "fold (\<lambda>j r. r[j := (r ! j \<noteq> c)]) [0..<Suc m] r =
            (map (\<lambda>b. b \<noteq> c) (take m r) @ drop m r)[m := ((map (\<lambda>b. b \<noteq> c) (take m r) @ drop m r) ! m \<noteq> c)]"
      using Suc by simp
    also have "\<dots> = map (\<lambda>b. b \<noteq> c) (take m r) @ (drop m r)[0 := (r ! m \<noteq> c)]"
      using m by (simp add: list_update_append nth_append)
    also have "(drop m r)[0 := (r ! m \<noteq> c)] = (r ! m \<noteq> c) # drop (Suc m) r"
      using m by (simp add: Cons_nth_drop_Suc [symmetric])
    also have "map (\<lambda>b. b \<noteq> c) (take m r) @ (r ! m \<noteq> c) # drop (Suc m) r =
                 map (\<lambda>b. b \<noteq> c) (take (Suc m) r) @ drop (Suc m) r"
      using m by (simp add: take_Suc_conv_app_nth)
    finally show ?case .
  qed
  from this [of "length r"] show ?thesis by simp
qed

lemma cnot_row_run:
  assumes "i < length x" and "length r = length x"
  shows "classical_run (map (\<lambda>j. CNot i (length x + j)) [0..<length x]) (x @ r) =
           Some (x @ map (\<lambda>b. b \<noteq> x ! i) r)"
proof -
  have "\<forall>j \<in> set [0..<length x]. j < length r"
    using assms(2) by simp
  from cnot_targets_run [OF assms(1) this] show ?thesis
    using fold_flip_all [of "x ! i" r] assms(2) by simp
qed

lemma oracle_rows_run:
  assumes "length x = length s" and "\<forall>i \<in> set js. i < length s"
  shows "classical_run
           (concat (map (\<lambda>i. if s ! i = CHR ''1''
                              then map (\<lambda>j. CNot i (length s + j)) [0..<length s] else []) js))
           (x @ replicate (length s) p) =
         Some (x @ replicate (length s)
                 (p \<noteq> odd (length (filter (\<lambda>i. s ! i = CHR ''1'' \<and> x ! i) js))))"
  using assms(2)
proof (induction js arbitrary: p)
  case Nil
  then show ?case by simp
next
  case (Cons i js)
  from Cons.prems have i: "i < length x" and js: "\<forall>i \<in> set js. i < length s"
    using assms(1) by simp_all
  show ?case
  proof (cases "s ! i = CHR ''1''")
    case False
    with Cons.IH [OF js] show ?thesis by simp
  next
    case True
    have row: "classical_run (map (\<lambda>j. CNot i (length s + j)) [0..<length s])
                 (x @ replicate (length s) p) =
               Some (x @ replicate (length s) (p \<noteq> x ! i))"
      using cnot_row_run [OF i, of "replicate (length s) p"] assms(1) by simp
    show ?thesis
      using True Cons.IH [OF js, of "p \<noteq> x ! i"]
      by (auto simp: classical_run_append row)
  qed
qed


text \<open>
  What the oracle computes for any hidden bit string: every qubit of the second register
  receives the parity of the bits of \<open>x\<close> at the positions where \<open>s\<close> is 1.
\<close>

lemma oracle_f_parity:
  assumes "is_bitstring s" and "length x = length s"
  shows "oracle_f s x =
           Some (replicate (length s)
                   (odd (length (filter (\<lambda>i. s ! i = CHR ''1'' \<and> x ! i) [0..<length s]))))"
proof -
  have js: "\<forall>i \<in> set [0..<length s]. i < length s" by simp
  have "oracle_loop s (length s) [0..<length s] [] =
          Inr (concat (map (\<lambda>i. if s ! i = CHR ''1''
                              then map (\<lambda>j. CNot i (length s + j)) [0..<length s] else [])
                 [0..<length s]))"
    using oracle_loop_bitstring [OF assms(1) js, of "length s" "[]"] by simp
  then show ?thesis
    using oracle_rows_run [OF assms(2) js, of False] assms(2)
    by (simp add: oracle_f_def Let_def)
qed

lemma length_filter_split:
  "length (filter (\<lambda>i. P i \<and> Q i) xs) + length (filter (\<lambda>i. P i \<and> \<not> Q i) xs) =
     length (filter P xs)"
  by (induction xs) auto

text \<open>
  Hence \<open>f (x XOR s) = f x\<close> holds exactly for the hidden strings with an even number
  of ones.
\<close>

lemma oracle_f_shift:
  assumes "is_bitstring s" and "length x = length s" and "s \<noteq> []"
  shows "oracle_f s (xor_bits x (bits_of s)) = oracle_f s x \<longleftrightarrow>
           even (count_list s (CHR ''1''))"
proof -
  let ?n = "length s"
  let ?one = "\<lambda>i. s ! i = CHR ''1''"
  have len: "length (xor_bits x (bits_of s)) = ?n"
    using assms(2) by (simp add: xor_bits_def bits_of_def)
  have "filter (\<lambda>i. ?one i \<and> xor_bits x (bits_of s) ! i) [0..<?n] =
          filter (\<lambda>i. ?one i \<and> \<not> x ! i) [0..<?n]"
    using assms(2) by (intro filter_cong) (auto simp: xor_bits_def bits_of_def)
  then have a: "oracle_f s (xor_bits x (bits_of s)) =
              Some (replicate ?n (odd (length (filter (\<lambda>i. ?one i \<and> \<not> x ! i) [0..<?n]))))"
    using oracle_f_parity [OF assms(1) len] by simp
  have b: "oracle_f s x =
              Some (replicate ?n (odd (length (filter (\<lambda>i. ?one i \<and> x ! i) [0..<?n]))))"
    by (rule oracle_f_parity [OF assms(1,2)])
  have "length (filter ?one [0..<?n]) = length (filter (\<lambda>c. c = CHR ''1'') s)"
    by (rule length_filter_nth [where P = "\<lambda>c. c = CHR ''1''"])
  moreover have "count_list s (CHR ''1'') = length (filter (\<lambda>c. c = CHR ''1'') s)"
    unfolding count_list_eq_length_filter
    by (rule arg_cong [where f = length], rule filter_cong) auto
  ultimately have c: "count_list s (CHR ''1'') = length (filter ?one [0..<?n])"
    by simp
  have n: "0 < ?n" using assms(3) by simp
  have r: "replicate ?n p = replicate ?n q \<longleftrightarrow> p = q" for p q :: bool
    using n by (cases ?n) auto
  let ?A = "length (filter (\<lambda>i. ?one i \<and> \<not> x ! i) [0..<?n])"
  let ?B = "length (filter (\<lambda>i. ?one i \<and> x ! i) [0..<?n])"
  have "?B + ?A = count_list s (CHR ''1'')"
    unfolding c by (rule length_filter_split)
  then have "even (count_list s (CHR ''1'')) \<longleftrightarrow> even (?B + ?A)"
    by (simp only:)
  also have "\<dots> \<longleftrightarrow> (even ?B \<longleftrightarrow> even ?A)"
    by (rule even_add)
  finally have "even (count_list s (CHR ''1'')) \<longleftrightarrow> (odd ?A \<longleftrightarrow> odd ?B)"
    by blast
  moreover have "oracle_f s (xor_bits x (bits_of s)) = oracle_f s x \<longleftrightarrow> (odd ?A \<longleftrightarrow> odd ?B)"
    unfolding a b option.inject r ..
  ultimately show ?thesis
    by (simp only:)
qed







section \<open>The recovery step on the results of the simulator\<close>






























section \<open>The post-processing cell as a whole\<close>


lemma applyfunc_row_guarded:
  assumes "\<And>x. f x = (if P x then Inr (g x) else Inl ValueError)"
  shows "applyfunc_row f xs =
           (if \<forall>x \<in> set xs. P x then Inr (map g xs) else Inl ValueError)"
  by (induction xs) (auto simp: assms)

text \<open>
  The reduction modulo 2 of a whole matrix: when every entry has an odd denominator, each
  entry is replaced by its numerator (in lowest terms) modulo 2; otherwise the cell raises
  ValueError. An integer entry becomes its residue, a negative one included.
\<close>

lemma applyfunc_mod_2:
  "applyfunc (\<lambda>x. mod_py x 2) M =
     (if \<forall>row \<in> set M. \<forall>x \<in> set row. odd (snd (quotient_of x))
      then Inr (map (map (\<lambda>x. fst (quotient_of x) mod 2)) M)
      else Inl ValueError)"
proof -
  have row: "applyfunc_row (\<lambda>x. mod_py x 2) r =
               (if \<forall>x \<in> set r. odd (snd (quotient_of x))
                then Inr (map (\<lambda>x. fst (quotient_of x) mod 2) r) else Inl ValueError)" for r
    by (rule applyfunc_row_guarded) (simp add: mod_py_2)
  show ?thesis
    unfolding applyfunc_def
    by (rule applyfunc_row_guarded) (rule row)
qed

lemma applyfunc_mod_2_example:
  "applyfunc (\<lambda>x. mod_py x 2) [[7, - 3, 2 / 3], [0, 1 / 5, - 4]] = Inr [[1, 1, 0], [0, 1, 0]]"
  by code_simp

text \<open>
  C6: for a tally whose keys are \<open>n\<close>-bit strings, the post-processing builds the matrix
  \<open>Y\<close> whose rows are the bit vectors of the keys other than the all-zero string, ordered
  by descending count; row-reduces \<open>Y\<close>; replaces every entry of the reduced matrix by its
  value modulo 2 (the numerator modulo 2, the denominator being odd); and then prints,
  after the two matrices and the heading, exactly one line \<open>s[ i1 ] + ... + s[ ik ] = 0\<close>
  for each row of the result that holds a 1, in row order, and nothing for a row without
  a 1. An exception of the row reduction, or an entry with an even denominator, ends the
  cell after \<open>Y\<close> was printed.
\<close>

theorem post_processing_steps:
  assumes "\<forall>k \<in> fst ` set answer_plot. is_bitstring k \<and> length k = n"
  shows "set (lAnswer n answer_plot) =
           {kv \<in> set answer_plot. fst kv \<noteq> replicate n (CHR ''0'')}
       \<and> mset (lAnswer n answer_plot) =
           mset (filter (\<lambda>kv. fst kv \<noteq> replicate n (CHR ''0'')) answer_plot)
       \<and> sorted_wrt (\<lambda>a b. b \<le> a) (map snd (lAnswer n answer_plot))
       \<and> (let Y = map (\<lambda>kv. map of_int (bit_vector (fst kv))) (lAnswer n answer_plot) in
          post_processing rref n answer_plot =
            (case rref Y of
               Inl e \<Rightarrow> ([OutMatrix Y], Some e)
             | Inr Y_transformed \<Rightarrow>
                 if \<forall>row \<in> set Y_transformed. \<forall>x \<in> set row. odd (snd (quotient_of x))
                 then let Y_new = map (map (\<lambda>x. fst (quotient_of x) mod 2)) Y_transformed
                      in ([OutMatrix Y, OutIntMatrix Y_new, OutLine (header n)] @
                            map (\<lambda>row. OutLine (equation row))
                              (filter (\<lambda>row. 1 \<in> set row) Y_new), None)
                 else ([OutMatrix Y], Some ValueError)))"
proof -
  let ?L = "lAnswer n answer_plot"
  let ?Y = "map (\<lambda>kv. map rat_of_int (bit_vector (fst kv))) ?L"
  have sub: "set ?L \<subseteq> set answer_plot"
    by (auto simp: set_lAnswer)
  with assms have bits: "\<forall>kv \<in> set ?L. is_bitstring (fst kv)"
    by auto
  from sub assms have lens: "\<forall>r \<in> set (map (\<lambda>kv. bit_vector (fst kv)) ?L). length r = n"
    by (auto simp: bit_vector_def)
  have Y: "Y_loop ?L [] = Inr (map (\<lambda>kv. bit_vector (fst kv)) ?L)"
    using Y_loop_bits [OF bits, of "[]"] by simp
  have M: "Matrix (map (\<lambda>kv. bit_vector (fst kv)) ?L) = Inr ?Y"
    using Matrix_same_length [OF lens] by (simp add: comp_def)
  have ms: "mset ?L = mset (filter (\<lambda>kv. fst kv \<noteq> replicate n (CHR ''0'')) answer_plot)"
    by (simp add: lAnswer_def case_prod_unfold)
  have run: "post_processing rref n answer_plot =
            (case rref ?Y of
               Inl e \<Rightarrow> ([OutMatrix ?Y], Some e)
             | Inr Y_transformed \<Rightarrow>
                 if \<forall>row \<in> set Y_transformed. \<forall>x \<in> set row. odd (snd (quotient_of x))
                 then let Y_new = map (map (\<lambda>x. fst (quotient_of x) mod 2)) Y_transformed
                      in ([OutMatrix ?Y, OutIntMatrix Y_new, OutLine (header n)] @
                            map (\<lambda>row. OutLine (equation row))
                              (filter (\<lambda>row. 1 \<in> set row) Y_new), None)
                 else ([OutMatrix ?Y], Some ValueError))"
    by (simp add: post_processing_def Y M applyfunc_mod_2 equations_loop_eq comp_def Let_def
        split: sum.splits)
  from set_lAnswer ms lAnswer_descending run show ?thesis
    unfolding Let_def by blast
qed

lemma recorded_tally: "tally 5 recorded_counts = [(''11011'', 5), (''00000'', 4)]"
  by code_simp

theorem post_processing_steps_witness:
  "list_all (\<lambda>k. is_bitstring k \<and> length k = 5) (map fst (tally 5 recorded_counts))
   \<and> lAnswer 5 (tally 5 recorded_counts) = [(''11011'', 5)]
   \<and> post_processing rref_unchanged 5 (tally 5 recorded_counts) =
       ([OutMatrix [[1, 1, 0, 1, 1]],
         OutIntMatrix [[1, 1, 0, 1, 1]],
         OutLine ''The hidden bistring s[ 0 ], s[ 1 ]....s[ 4 ] is the one satisfying the following system of linear equations:'',
         OutLine ''s[ 0 ] + s[ 1 ] + s[ 3 ] + s[ 4 ] = 0''], None)"
proof -
  let ?ap = "[(''11011'', 5), (''00000'', 4)] :: counts"
  have h: "\<forall>k \<in> fst ` set ?ap. is_bitstring k \<and> length k = 5"
    by (simp add: is_bitstring_def)
  have la: "lAnswer 5 ?ap = [(''11011'', 5)]"
    by code_simp
  have Y: "map (\<lambda>kv. map rat_of_int (bit_vector (fst kv))) [(''11011'', 5)] = [[1, 1, 0, 1, 1]]"
    by (simp add: bit_vector_def)
  have q: "quotient_of 0 = (0, 1)" "quotient_of 1 = (1, 1)"
    by simp_all
  have eq: "equation [1, 1, 0, 1, 1] = ''s[ 0 ] + s[ 1 ] + s[ 3 ] + s[ 4 ] = 0''"
    by code_simp
  have hd: "header 5 = ''The hidden bistring s[ 0 ], s[ 1 ]....s[ 4 ] is the one satisfying the following system of linear equations:''"
    by code_simp
  from post_processing_steps [OF h, of rref_unchanged]
  have "post_processing rref_unchanged 5 ?ap =
       ([OutMatrix [[1, 1, 0, 1, 1]], OutIntMatrix [[1, 1, 0, 1, 1]], OutLine (header 5),
         OutLine (equation [1, 1, 0, 1, 1])], None)"
    unfolding la Let_def Y by (simp add: rref_unchanged_def q)
  with la show ?thesis
    unfolding recorded_tally eq hd by (simp add: is_bitstring_def)
qed

section \<open>The device runs of each notebook\<close>


lemma run_cells_first_failure:
  "fst (run_cells backend cs runs printed) =
     runs @ take (Suc (length (takeWhile
                  (\<lambda>c. case backend c of Inl e \<Rightarrow> False | Inr mc \<Rightarrow> True) cs))) cs"
proof (induction cs arbitrary: runs printed)
  case Nil
  then show ?case by simp
next
  case (Cons c cs)
  show ?case
  proof (cases "backend c")
    case (Inl e)
    then show ?thesis by simp
  next
    case (Inr mc)
    with Cons.IH [of "runs @ [c]" "printed @ [mc]"] show ?thesis by simp
  qed
qed

text \<open>
  C8, amended: the device runs of a notebook are made in sequence, each call site once.
  The Simon notebook without the QPU cells makes exactly one run, on the simulator, once
  the circuit is built, and none otherwise. The notebook with the QPU cells makes that
  simulator run and then, exactly when the simulator run returns and the recovery step
  succeeds, one run on the cloud device: two runs in all. The introductory notebook makes
  its seven simulator runs in order, up to and including the first that raises.
\<close>

theorem device_runs_per_notebook:
  "fst (simon_notebook backend s) =
     (case simon_circuit s of
        Inl e \<Rightarrow> []
      | Inr circ \<Rightarrow> [local_run circ (length s)])
   \<and> fst (simon_qpu_notebook backend rref s) =
     (case simon_circuit s of
        Inl e \<Rightarrow> []
      | Inr circ \<Rightarrow>
          (case backend (local_run circ (length s)) of
             Inl e \<Rightarrow> [local_run circ (length s)]
           | Inr measurement_counts \<Rightarrow>
               (case s_calc (tally (length s) measurement_counts) of
                  Inl e \<Rightarrow> [local_run circ (length s)]
                | Inr v \<Rightarrow> [local_run circ (length s), ionq_run circ])))
   \<and> local_run circ n \<noteq> ionq_run circ'
   \<and> fst (intro_notebook backend) =
       take (Suc (length (takeWhile
                    (\<lambda>c. case backend c of Inl e \<Rightarrow> False | Inr mc \<Rightarrow> True) intro_cells)))
         intro_cells
   \<and> length intro_cells = 7
   \<and> distinct intro_cells"
proof -
  have a: "fst (simon_notebook backend s) =
     (case simon_circuit s of
        Inl e \<Rightarrow> []
      | Inr circ \<Rightarrow> [local_run circ (length s)])"
    by (simp add: simon_notebook_def Let_def split: sum.splits)
  have b: "fst (simon_qpu_notebook backend rref s) =
     (case simon_circuit s of
        Inl e \<Rightarrow> []
      | Inr circ \<Rightarrow>
          (case backend (local_run circ (length s)) of
             Inl e \<Rightarrow> [local_run circ (length s)]
           | Inr measurement_counts \<Rightarrow>
               (case s_calc (tally (length s) measurement_counts) of
                  Inl e \<Rightarrow> [local_run circ (length s)]
                | Inr v \<Rightarrow> [local_run circ (length s), ionq_run circ])))"
    by (simp add: simon_qpu_notebook_def Let_def split: sum.splits)
  have c: "local_run circ n \<noteq> ionq_run circ'"
    by (simp add: local_run_def ionq_run_def)
  have d: "fst (intro_notebook backend) =
       take (Suc (length (takeWhile
                    (\<lambda>c. case backend c of Inl e \<Rightarrow> False | Inr mc \<Rightarrow> True) intro_cells)))
         intro_cells"
    using run_cells_first_failure [of backend intro_cells "[]" "[]"]
    by (simp add: intro_notebook_def)
  have e: "length intro_cells = 7" "distinct intro_cells"
    by (simp_all add: intro_cells_def)
  from a b c d e show ?thesis by blast
qed

lemma zero_s_calc: "s_calc (tally (length ''11011'') [(''0000000000'', 9)]) = Inl ValueError"
  by code_simp

theorem device_runs_per_notebook_witness:
  "map dev (fst (simon_notebook recorded_backend ''11011'')) = [LocalSimulator]
   \<and> map dev (fst (simon_qpu_notebook recorded_backend rref_unchanged ''11011'')) =
       [LocalSimulator, AwsDevice ''arn:aws:braket:::device/qpu/ionq/ionQdevice'']
   \<and> map dev (fst (simon_qpu_notebook zero_backend rref_unchanged ''11011'')) = [LocalSimulator]
   \<and> fst (intro_notebook recorded_backend) = intro_cells
   \<and> fst (intro_notebook h_down_backend) = take 3 intro_cells"
proof -
  note inst = device_runs_per_notebook [where s = "''11011''" and rref = rref_unchanged]
  note simon = inst [THEN conjunct1]
  note qpu = inst [THEN conjunct2, THEN conjunct1]
  note intro = inst [THEN conjunct2, THEN conjunct2, THEN conjunct2, THEN conjunct1]
  have t1: "takeWhile (\<lambda>c. case recorded_backend c of Inl e \<Rightarrow> False | Inr mc \<Rightarrow> True) intro_cells
              = intro_cells"
    by (simp add: recorded_backend_def)
  have t2: "length (takeWhile (\<lambda>c. case h_down_backend c of Inl e \<Rightarrow> False | Inr mc \<Rightarrow> True)
              intro_cells) = 2"
    by (simp add: h_down_backend_def intro_cells_def)
  have a: "map dev (fst (simon_notebook recorded_backend ''11011'')) = [LocalSimulator]"
    unfolding simon recorded_circuit sum.case
    by (simp add: local_run_def)
  have b: "map dev (fst (simon_qpu_notebook recorded_backend rref_unchanged ''11011'')) =
       [LocalSimulator, AwsDevice ''arn:aws:braket:::device/qpu/ionq/ionQdevice'']"
    unfolding qpu recorded_circuit sum.case recorded_backend_def recorded_s_calc
    by (simp add: local_run_def ionq_run_def)
  have c: "map dev (fst (simon_qpu_notebook zero_backend rref_unchanged ''11011'')) =
       [LocalSimulator]"
    unfolding qpu recorded_circuit sum.case zero_backend_def zero_s_calc
    by (simp add: local_run_def)
  have d: "fst (intro_notebook recorded_backend) = intro_cells"
    unfolding intro t1 by simp
  have e: "fst (intro_notebook h_down_backend) = take 3 intro_cells"
    unfolding intro t2 by (simp add: numeral_3_eq_3)
  from a b c d e show ?thesis by blast
qed

end
